theory Spec2Isabelle
  imports Main "HOL-Library.Sublist"
begin

section \<open>The script \<open>fix_status.py\<close> as a functional program\<close>

text \<open>
  The script reads \<open>cmd/tmux-intray/status.go\<close> in text mode, appends an import line after
  every line that holds the anchor, joins the lines, runs six \<open>re.sub\<close> calls one after the
  other and writes the text back to the same path.

  Modelling decisions.
  \<^item> A text is a \<open>string\<close>; the file store maps a path to the text stored there. Decoding and
    encoding are left out: the store holds the characters the codec yields.
  \<^item> The interpreter is Python 3 on a POSIX system (tmux runs there): \<open>open(path, 'r')\<close>
    reads with universal newlines, so \<open>CR LF\<close> and a lone \<open>CR\<close> arrive as \<open>LF\<close>, and
    \<open>open(path, 'w')\<close> writes \<open>LF\<close> as it is.
  \<^item> Exceptions are values of \<open>error + 'a\<close>. A missing path is \<open>NotFoundError\<close>; other
    failures of the file system (permissions, devices) are not modelled.
  \<^item> \<open>re.sub\<close> is modelled on the fragment of the pattern language the script uses: ordinary
    characters and backslash-escaped punctuation. Such a pattern matches one literal string.
    A pattern that ends in a lone backslash does not compile (\<open>PatternError\<close>). Patterns and
    replacement templates that use anything else are answered with \<open>OutsideFragment\<close>: the
    model gives them no meaning.
\<close>

subsection \<open>Characters\<close>

abbreviation LF :: char where "LF \<equiv> CHR 0x0A"
abbreviation CR :: char where "CR \<equiv> CHR 0x0D"
abbreviation TAB :: char where "TAB \<equiv> CHR 0x09"
abbreviation BSL :: char where "BSL \<equiv> CHR 0x5C"
abbreviation DQ :: char where "DQ \<equiv> CHR 0x22"

datatype error = NotFoundError | PatternError | OutsideFragment

subsection \<open>Loader: \<open>open(path, 'r')\<close> and \<open>readlines\<close>\<close>

text \<open>Universal newlines: \<open>CR LF\<close> and \<open>CR\<close> are read as \<open>LF\<close>.\<close>

fun universal_newlines :: "string \<Rightarrow> string" where
  "universal_newlines [] = []"
| "universal_newlines [c] = [if c = CR then LF else c]"
| "universal_newlines (c # d # cs) =
     (if c = CR \<and> d = LF then LF # universal_newlines cs
      else if c = CR then LF # universal_newlines (d # cs)
      else c # universal_newlines (d # cs))"

text \<open>
  \<open>readlines\<close>: the text cut after every \<open>LF\<close>; each line keeps its \<open>LF\<close>, a last line
  without one is kept as it is, and the empty text has no line. \<open>cur\<close> is the line read so far.
\<close>

fun readlines_from :: "string \<Rightarrow> string \<Rightarrow> string list" where
  "readlines_from cur [] = (if cur = [] then [] else [cur])"
| "readlines_from cur (c # cs) =
     (if c = LF then (cur @ [c]) # readlines_from [] cs else readlines_from (cur @ [c]) cs)"

definition readlines :: "string \<Rightarrow> string list" where
  "readlines text = readlines_from [] text"

subsection \<open>Anchor injector\<close>

definition anchor :: string where
  "anchor = DQ # ''github.com/cristianoliveira/tmux-intray/cmd'' @ [DQ]"

definition insertion :: string where
  "insertion = TAB # DQ # ''github.com/cristianoliveira/tmux-intray/internal/storage'' @ [DQ, LF]"

text \<open>
  The \<open>for\<close> loop over \<open>lines\<close>, with \<open>new_lines\<close> as the accumulator; Python's \<open>in\<close> on strings
  is \<open>sublist\<close>.
\<close>

fun inject_loop :: "string list \<Rightarrow> string list \<Rightarrow> string list" where
  "inject_loop new_lines [] = new_lines"
| "inject_loop new_lines (line # lines) =
     (let new_lines = new_lines @ [line];
          new_lines = (if sublist anchor line then new_lines @ [insertion] else new_lines)
      in inject_loop new_lines lines)"

definition inject :: "string list \<Rightarrow> string list" where
  "inject lines = inject_loop [] lines"

text \<open>The number of lines that hold the anchor.\<close>

definition matches :: "string list \<Rightarrow> nat" where
  "matches lines = length (filter (sublist anchor) lines)"

subsection \<open>Pattern rewriter: \<open>re.sub\<close> on literal patterns\<close>

definition re_special :: string where
  "re_special = ''.^$*+?{}[]|()'' @ [BSL]"

definition ascii_alnum :: string where
  "ascii_alnum = ''abcdefghijklmnopqrstuvwxyzABCDEFGHIJKLMNOPQRSTUVWXYZ0123456789''"

text \<open>
  Compiling a pattern of the fragment yields the literal it matches. Python reads the
  pattern from left to right and raises at the first fault.
\<close>

fun re_compile :: "string \<Rightarrow> error + string" where
  "re_compile [] = Inr []"
| "re_compile [c] =
     (if c = BSL then Inl PatternError
      else if c \<in> set re_special then Inl OutsideFragment
      else Inr [c])"
| "re_compile (c # d # cs) =
     (if c = BSL then
        (if d \<in> set ascii_alnum then Inl OutsideFragment
         else map_sum id ((#) d) (re_compile cs))
      else if c \<in> set re_special then Inl OutsideFragment
      else map_sum id ((#) c) (re_compile (d # cs)))"

text \<open>A replacement template without a backslash stands for itself.\<close>

definition re_template :: "string \<Rightarrow> error + string" where
  "re_template repl = (if BSL \<in> set repl then Inl OutsideFragment else Inr repl)"

text \<open>
  The scan of \<open>re.sub\<close> for a literal \<open>p\<close>: from left to right, the leftmost occurrence is
  replaced and the scan goes on behind it. The empty literal matches before every character
  and at the end.
\<close>

function sub_all :: "string \<Rightarrow> string \<Rightarrow> string \<Rightarrow> string" where
  "sub_all p r [] = (if p = [] then r else [])"
| "sub_all p r (c # cs) =
     (if p = [] then r @ c # sub_all p r cs
      else if prefix p (c # cs) then r @ sub_all p r (drop (length p) (c # cs))
      else c # sub_all p r cs)"
  by pat_completeness auto
termination
  by (relation "measure (\<lambda>(p, r, s). length s)") auto

definition re_sub :: "string \<Rightarrow> string \<Rightarrow> string \<Rightarrow> error + string" where
  "re_sub pattern repl text =
     (case re_compile pattern of
        Inl e \<Rightarrow> Inl e
      | Inr p \<Rightarrow> (case re_template repl of
                   Inl e \<Rightarrow> Inl e
                 | Inr r \<Rightarrow> Inr (sub_all p r text)))"

definition bind_result :: "error + 'a \<Rightarrow> ('a \<Rightarrow> error + 'b) \<Rightarrow> error + 'b" where
  "bind_result m f = (case m of Inl e \<Rightarrow> Inl e | Inr x \<Rightarrow> f x)"

text \<open>The six \<open>re.sub\<close> calls of the script, in its order, each on the result of the one before.\<close>

definition rewrite :: "string \<Rightarrow> error + string" where
  "rewrite content =
     bind_result (re_sub (''len'' @ BSL # ''(fields'' @ BSL # '') <= 8'')
                         ''len(fields) <= storage.FieldLevel'' content) (\<lambda>content.
     bind_result (re_sub (''fields'' @ BSL # ''[8'' @ BSL # '']'')
                         ''fields[storage.FieldLevel]'' content) (\<lambda>content.
     bind_result (re_sub (''len'' @ BSL # ''(fields'' @ BSL # '') <= 5'')
                         ''len(fields) <= storage.FieldPane'' content) (\<lambda>content.
     bind_result (re_sub (''fields'' @ BSL # ''[3'' @ BSL # '']'')
                         ''fields[storage.FieldSession]'' content) (\<lambda>content.
     bind_result (re_sub (''fields'' @ BSL # ''[4'' @ BSL # '']'')
                         ''fields[storage.FieldWindow]'' content) (\<lambda>content.
     bind_result (re_sub (''fields'' @ BSL # ''[5'' @ BSL # '']'')
                         ''fields[storage.FieldPane]'' content) (\<lambda>content.
     Inr content))))))"

text \<open>The same rules as a list, and the rewriter for any list of rules.\<close>

type_synonym rule = "string \<times> string"

definition rewrite_rules :: "rule list" where
  "rewrite_rules =
     [(''len'' @ BSL # ''(fields'' @ BSL # '') <= 8'', ''len(fields) <= storage.FieldLevel''),
      (''fields'' @ BSL # ''[8'' @ BSL # '']'', ''fields[storage.FieldLevel]''),
      (''len'' @ BSL # ''(fields'' @ BSL # '') <= 5'', ''len(fields) <= storage.FieldPane''),
      (''fields'' @ BSL # ''[3'' @ BSL # '']'', ''fields[storage.FieldSession]''),
      (''fields'' @ BSL # ''[4'' @ BSL # '']'', ''fields[storage.FieldWindow]''),
      (''fields'' @ BSL # ''[5'' @ BSL # '']'', ''fields[storage.FieldPane]'')]"

fun rewrite_with :: "rule list \<Rightarrow> string \<Rightarrow> error + string" where
  "rewrite_with [] content = Inr content"
| "rewrite_with ((pattern, repl) # rules) content =
     bind_result (re_sub pattern repl content) (rewrite_with rules)"

subsection \<open>The whole run\<close>

type_synonym filesystem = "string \<rightharpoonup> string"

definition target :: string where
  "target = ''cmd/tmux-intray/status.go''"

text \<open>
  The run with any list of rules: load, inject, join, rewrite, write. An exception ends the
  run where it is raised, with the store as it is at that point.
\<close>

definition run_with :: "rule list \<Rightarrow> filesystem \<Rightarrow> (error + unit) \<times> filesystem" where
  "run_with rules fs =
     (case fs target of
        None \<Rightarrow> (Inl NotFoundError, fs)
      | Some stored \<Rightarrow>
          (let lines = readlines (universal_newlines stored);
               new_lines = inject lines;
               content = concat new_lines
           in case rewrite_with rules content of
                Inl e \<Rightarrow> (Inl e, fs)
              | Inr content \<Rightarrow> (Inr (), fs(target \<mapsto> content))))"

text \<open>The script itself.\<close>

definition fix_status :: "filesystem \<Rightarrow> (error + unit) \<times> filesystem" where
  "fix_status fs =
     (case fs target of
        None \<Rightarrow> (Inl NotFoundError, fs)
      | Some stored \<Rightarrow>
          (let lines = readlines (universal_newlines stored);
               new_lines = inject lines;
               content = concat new_lines
           in case rewrite content of
                Inl e \<Rightarrow> (Inl e, fs)
              | Inr content \<Rightarrow> (Inr (), fs(target \<mapsto> content))))"

subsection \<open>The rewriter on compiled rules\<close>

text \<open>
  The six patterns compile to literals and the six templates stand for themselves, so the
  rewriter never raises: it is the composition of six scans.
\<close>

definition rewrite_text :: "string \<Rightarrow> string" where
  "rewrite_text content =
     sub_all ''fields[5]'' ''fields[storage.FieldPane]''
      (sub_all ''fields[4]'' ''fields[storage.FieldWindow]''
       (sub_all ''fields[3]'' ''fields[storage.FieldSession]''
        (sub_all ''len(fields) <= 5'' ''len(fields) <= storage.FieldPane''
         (sub_all ''fields[8]'' ''fields[storage.FieldLevel]''
          (sub_all ''len(fields) <= 8'' ''len(fields) <= storage.FieldLevel'' content)))))"

text \<open>The literals and replacements the six rules compile to.\<close>

definition literal_rules :: "rule list" where
  "literal_rules =
     [(''len(fields) <= 8'', ''len(fields) <= storage.FieldLevel''),
      (''fields[8]'', ''fields[storage.FieldLevel]''),
      (''len(fields) <= 5'', ''len(fields) <= storage.FieldPane''),
      (''fields[3]'', ''fields[storage.FieldSession]''),
      (''fields[4]'', ''fields[storage.FieldWindow]''),
      (''fields[5]'', ''fields[storage.FieldPane]'')]"

text \<open>Two rules of a list exchanged.\<close>

definition swap_rules :: "nat \<Rightarrow> nat \<Rightarrow> rule list \<Rightarrow> rule list" where
  "swap_rules i j rules = rules[i := rules ! j, j := rules ! i]"

text \<open>A rule whose pattern and template the model gives a meaning (or a \<open>PatternError\<close>).\<close>

definition in_fragment :: "rule \<Rightarrow> bool" where
  "in_fragment rule \<longleftrightarrow>
     re_compile (fst rule) \<noteq> Inl OutsideFragment \<and> re_template (snd rule) \<noteq> Inl OutsideFragment"

subsection \<open>Lines as \<open>readlines\<close> yields them\<close>

text \<open>
  A line is terminated when it ends in its only \<open>LF\<close>, unterminated when it is not empty
  and holds no \<open>LF\<close>. In a list of lines as \<open>readlines\<close> yields it, only the last line can
  be unterminated.
\<close>

definition terminated :: "string \<Rightarrow> bool" where
  "terminated line \<longleftrightarrow> line \<noteq> [] \<and> last line = LF \<and> LF \<notin> set (butlast line)"

definition unterminated :: "string \<Rightarrow> bool" where
  "unterminated line \<longleftrightarrow> line \<noteq> [] \<and> LF \<notin> set line"

fun wf_lines :: "string list \<Rightarrow> bool" where
  "wf_lines [] = True"
| "wf_lines [line] = (terminated line \<or> unterminated line)"
| "wf_lines (line # next_line # lines) = (terminated line \<and> wf_lines (next_line # lines))"

subsection \<open>The text a run writes\<close>

text \<open>The anchor is a path between double quotes.\<close>

definition anchor_path :: string where
  "anchor_path = ''github.com/cristianoliveira/tmux-intray/cmd''"

text \<open>The text that a run writes for the stored text.\<close>

definition written :: "string \<Rightarrow> string" where
  "written stored = rewrite_text (concat (inject (readlines (universal_newlines stored))))"

subsection \<open>How an occurrence of a literal can touch a replacement\<close>

text \<open>
  \<open>clash p t\<close>: a nonempty end of \<open>p\<close> begins \<open>t\<close>, or \<open>t\<close> begins such an end; then an
  occurrence of \<open>p\<close> can run into a copy of \<open>t\<close> from the left. \<open>straddles p t\<close>: what is left
  of \<open>p\<close> behind each nonempty beginning of \<open>p\<close> that ends \<open>t\<close>; an occurrence of \<open>p\<close> that
  begins inside a copy of \<open>t\<close> goes on with one of these. \<open>apart p t\<close>: no occurrence of \<open>p\<close>
  can touch a copy of \<open>t\<close>.
\<close>

definition clash :: "string \<Rightarrow> string \<Rightarrow> bool" where
  "clash p t \<longleftrightarrow> (\<exists>y \<in> set (suffixes p). y \<noteq> [] \<and> (prefix y t \<or> prefix t y))"

definition straddles :: "string \<Rightarrow> string \<Rightarrow> string list" where
  "straddles p t = map (\<lambda>n. drop n p) (filter (\<lambda>n. suffix (take n p) t) [1..<Suc (length p)])"

definition apart :: "string \<Rightarrow> string \<Rightarrow> bool" where
  "apart p t \<longleftrightarrow> \<not> clash p t \<and> straddles p t = [] \<and> \<not> sublist p t"

text \<open>The scans of a list of compiled rules, one after the other.\<close>

abbreviation scan_rules :: "string \<Rightarrow> rule list \<Rightarrow> string" where
  "scan_rules s rules \<equiv> foldl (\<lambda>text (p, r). sub_all p r text) s rules"

section \<open>Basic facts\<close>

subsection \<open>The injector\<close>

lemma inject_loop_concat:
  "inject_loop new_lines lines =
     new_lines @ concat (map (\<lambda>line. if sublist anchor line then [line, insertion] else [line]) lines)"
  by (induction lines arbitrary: new_lines) (simp_all add: Let_def)

lemma inject_concat:
  "inject lines = concat (map (\<lambda>line. if sublist anchor line then [line, insertion] else [line]) lines)"
  by (simp add: inject_def inject_loop_concat)

lemma inject_Nil [simp]: "inject [] = []"
  by (simp add: inject_concat)

lemma inject_Cons:
  "inject (line # lines) = (if sublist anchor line then [line, insertion] else [line]) @ inject lines"
  by (simp add: inject_concat)

lemma inject_append: "inject (xs @ ys) = inject xs @ inject ys"
  by (simp add: inject_concat)

lemma matches_Nil [simp]: "matches [] = 0"
  by (simp add: matches_def)

lemma matches_Cons:
  "matches (line # lines) = (if sublist anchor line then 1 else 0) + matches lines"
  by (simp add: matches_def)

lemma length_inject: "length (inject lines) = length lines + matches lines"
  by (induction lines) (simp_all add: inject_Cons matches_Cons)

lemma count_inject:
  "count_list (inject lines) insertion = count_list lines insertion + matches lines"
  by (induction lines) (simp_all add: inject_Cons matches_Cons)

lemma inject_no_match: "matches lines = 0 \<Longrightarrow> inject lines = lines"
  by (induction lines) (simp_all add: inject_Cons matches_Cons split: if_splits)

lemma inject_at:
  assumes "i < length lines"
  shows "inject lines ! (i + matches (take i lines)) = lines ! i"
    and "sublist anchor (lines ! i) \<Longrightarrow> inject lines ! (i + matches (take i lines) + 1) = insertion"
proof -
  have split: "lines = take i lines @ lines ! i # drop (Suc i) lines"
    using assms by (simp add: id_take_nth_drop)
  have len: "length (inject (take i lines)) = i + matches (take i lines)"
    using assms by (simp add: length_inject)
  have inj: "inject lines = inject (take i lines) @ inject (lines ! i # drop (Suc i) lines)"
    using split inject_append by metis
  show "inject lines ! (i + matches (take i lines)) = lines ! i"
    by (simp add: inj nth_append len inject_Cons)
  show "inject lines ! (i + matches (take i lines) + 1) = insertion" if "sublist anchor (lines ! i)"
    using that by (simp add: inj nth_append len inject_Cons)
qed

subsection \<open>The rewriter\<close>

lemma compile_rules:
  "re_compile (''len'' @ BSL # ''(fields'' @ BSL # '') <= 8'') = Inr ''len(fields) <= 8''"
  "re_compile (''fields'' @ BSL # ''[8'' @ BSL # '']'') = Inr ''fields[8]''"
  "re_compile (''len'' @ BSL # ''(fields'' @ BSL # '') <= 5'') = Inr ''len(fields) <= 5''"
  "re_compile (''fields'' @ BSL # ''[3'' @ BSL # '']'') = Inr ''fields[3]''"
  "re_compile (''fields'' @ BSL # ''[4'' @ BSL # '']'') = Inr ''fields[4]''"
  "re_compile (''fields'' @ BSL # ''[5'' @ BSL # '']'') = Inr ''fields[5]''"
  by code_simp+

lemma template_rules:
  "re_template ''len(fields) <= storage.FieldLevel'' = Inr ''len(fields) <= storage.FieldLevel''"
  "re_template ''fields[storage.FieldLevel]'' = Inr ''fields[storage.FieldLevel]''"
  "re_template ''len(fields) <= storage.FieldPane'' = Inr ''len(fields) <= storage.FieldPane''"
  "re_template ''fields[storage.FieldSession]'' = Inr ''fields[storage.FieldSession]''"
  "re_template ''fields[storage.FieldWindow]'' = Inr ''fields[storage.FieldWindow]''"
  "re_template ''fields[storage.FieldPane]'' = Inr ''fields[storage.FieldPane]''"
  by code_simp+

lemma rewrite_total: "rewrite content = Inr (rewrite_text content)"
  unfolding rewrite_def rewrite_text_def re_sub_def compile_rules template_rules
  by (simp add: bind_result_def)

lemma rewrite_with_rules: "rewrite_with rewrite_rules content = rewrite content"
proof -
  have nil: "rewrite_with [] = Inr"
    by (rule ext) simp
  show ?thesis
    unfolding rewrite_rules_def rewrite_def rewrite_with.simps(2) nil by (rule refl)
qed

lemma run_with_rules: "run_with rewrite_rules fs = fix_status fs"
  unfolding run_with_def fix_status_def rewrite_with_rules by (rule refl)

subsection \<open>The scan\<close>

lemma sub_all_match: "p \<noteq> [] \<Longrightarrow> sub_all p r (p @ s) = r @ sub_all p r s"
  by (cases p) simp_all

lemma sub_all_step:
  "\<not> prefix p (c # cs) \<Longrightarrow> sub_all p r (c # cs) = c # sub_all p r cs"
  by (cases "p = []") simp_all

lemma sub_all_empty: "p \<noteq> [] \<Longrightarrow> sub_all p r [] = []"
  by simp

declare sub_all.simps [simp del]

lemma sub_all_absent: "\<not> sublist p s \<Longrightarrow> sub_all p r s = s"
proof (induction s)
  case Nil
  then show ?case by (cases "p = []") (simp_all add: sub_all_empty)
next
  case (Cons c cs)
  then have "\<not> prefix p (c # cs)" "\<not> sublist p cs"
    by (auto simp: sublist_Cons_right)
  with Cons.IH show ?case by (simp add: sub_all_step)
qed

lemma prefix_overhang:
  assumes "prefix p (u @ p @ v)" "u \<noteq> []"
  shows "prefix p (u @ butlast p)"
proof (cases "p = []")
  case True
  then show ?thesis by simp
next
  case False
  then have "u @ p @ v = (u @ butlast p) @ (last p # v)"
    by simp
  then have whole: "prefix (u @ butlast p) (u @ p @ v)"
    by (metis prefixI)
  have "length p \<le> length (u @ butlast p)"
    using assms(2) by (cases u) simp_all
  with assms(1) whole show ?thesis
    by (rule prefix_length_prefix)
qed

lemma sub_all_skip:
  "\<not> sublist p (u @ butlast p) \<Longrightarrow> sub_all p r (u @ p @ v) = u @ r @ sub_all p r v"
proof (induction u)
  case Nil
  then have "p \<noteq> []" by auto
  then show ?case by (simp add: sub_all_match)
next
  case (Cons c u)
  then have np: "\<not> prefix p ((c # u) @ butlast p)" and ns: "\<not> sublist p (u @ butlast p)"
    by (auto simp: sublist_Cons_right)
  from np have "\<not> prefix p ((c # u) @ p @ v)"
    using prefix_overhang [of p "c # u" v] by blast
  then have "sub_all p r ((c # u) @ p @ v) = c # sub_all p r (u @ p @ v)"
    by (simp add: sub_all_step)
  with Cons.IH [OF ns] show ?case by simp
qed

text \<open>A character that is not in the literal splits the scan.\<close>

lemma prefix_separator:
  "q \<notin> set p \<Longrightarrow> prefix p (u @ q # v) \<longleftrightarrow> prefix p u"
  by (auto simp: prefix_append prefix_Cons)

lemma sub_all_separator:
  "p \<noteq> [] \<Longrightarrow> q \<notin> set p \<Longrightarrow> sub_all p r (u @ q # v) = sub_all p r u @ q # sub_all p r v"
proof (induction p r u rule: sub_all.induct)
  case (1 p r)
  then have "\<not> prefix p (q # v)"
    by (cases p) auto
  with 1 show ?case by (simp add: sub_all_step sub_all_empty)
next
  case (2 p r c cs)
  show ?case
  proof (cases "prefix p (c # cs)")
    case True
    then have le: "length p \<le> length (c # cs)"
      by (rule prefix_length_le)
    from True have "prefix p ((c # cs) @ q # v)"
      using prefix_separator [of q p "c # cs" v] "2.prems" by blast
    then have "sub_all p r ((c # cs) @ q # v) = r @ sub_all p r (drop (length p) ((c # cs) @ q # v))"
      using "2.prems" by (simp add: sub_all.simps)
    also have "drop (length p) ((c # cs) @ q # v) = drop (length p) (c # cs) @ q # v"
    proof -
      have "length p - length (c # cs) = 0"
        using le by simp
      then show ?thesis
        by (simp only: drop_append drop_0)
    qed
    also have "sub_all p r (drop (length p) (c # cs) @ q # v)
               = sub_all p r (drop (length p) (c # cs)) @ q # sub_all p r v"
      using "2.IH"(2) "2.prems" True by blast
    finally show ?thesis
      using True "2.prems" by (simp add: sub_all.simps)
  next
    case False
    then have "\<not> prefix p ((c # cs) @ q # v)"
      using prefix_separator [of q p "c # cs" v] "2.prems" by blast
    then have "sub_all p r ((c # cs) @ q # v) = c # sub_all p r (cs @ q # v)"
      by (simp add: sub_all_step)
    with "2.IH"(3) "2.prems" False show ?thesis
      by (simp add: sub_all_step)
  qed
qed

subsection \<open>The rewriter as a fold, and its errors\<close>

lemma rewrite_text_foldl:
  "rewrite_text content = foldl (\<lambda>text (p, r). sub_all p r text) content literal_rules"
  by (simp add: rewrite_text_def literal_rules_def)

lemma compiled_rules:
  "map (\<lambda>(pattern, repl). (re_compile pattern, re_template repl)) rewrite_rules
     = map (\<lambda>(p, r). (Inr p, Inr r)) literal_rules"
  unfolding rewrite_rules_def literal_rules_def list.map prod.case compile_rules template_rules
  by (rule refl)

lemma fix_status_found:
  "fs target = Some stored \<Longrightarrow>
   fix_status fs =
     (Inr (), fs(target \<mapsto> rewrite_text (concat (inject (readlines (universal_newlines stored))))))"
  by (simp add: fix_status_def rewrite_total)

lemma map_sum_id_Inl: "map_sum id f x = Inl e \<longleftrightarrow> x = Inl e"
  by (cases x) simp_all

lemma re_compile_found: "re_compile pattern = Inl e \<Longrightarrow> e \<noteq> NotFoundError"
proof (induction pattern rule: re_compile.induct)
  case 1
  then show ?case by simp
next
  case (2 c)
  then show ?case by (simp split: if_splits)
next
  case (3 c d cs)
  then show ?case by (simp add: map_sum_id_Inl split: if_splits)
qed

lemma re_sub_errors:
  assumes "re_sub pattern repl content = Inl e" "in_fragment (pattern, repl)"
  shows "e = PatternError"
proof (cases "re_compile pattern")
  case (Inl e')
  with assms(1) have "e' = e" by (simp add: re_sub_def)
  with Inl assms(2) re_compile_found [of pattern e] show ?thesis
    by (cases e) (simp_all add: in_fragment_def)
next
  case (Inr p)
  with assms(1) have "re_template repl = Inl e"
    by (simp add: re_sub_def split: sum.splits)
  then have "re_template repl = Inl OutsideFragment"
    by (simp add: re_template_def split: if_splits)
  with assms(2) show ?thesis by (simp add: in_fragment_def)
qed

lemma re_sub_pattern_error:
  "re_compile pattern = Inl PatternError \<Longrightarrow> re_sub pattern repl text = Inl PatternError"
  by (simp add: re_sub_def)

lemma rewrite_with_pattern_error:
  "\<forall>rule \<in> set pre. in_fragment rule \<Longrightarrow> re_compile pattern = Inl PatternError \<Longrightarrow>
   rewrite_with (pre @ (pattern, repl) # post) content = Inl PatternError"
proof (induction pre arbitrary: content)
  case Nil
  then show ?case by (simp add: re_sub_pattern_error bind_result_def)
next
  case (Cons rule pre)
  obtain p r where rule: "rule = (p, r)" by (cases rule)
  show ?case
  proof (cases "re_sub p r content")
    case (Inl e)
    with Cons.prems rule have "e = PatternError"
      using re_sub_errors [of p r content e] by simp
    with Inl rule show ?thesis by (simp add: bind_result_def)
  next
    case (Inr rewritten)
    with Cons rule show ?thesis by (simp add: bind_result_def)
  qed
qed

lemma run_with_error: "run_with rules fs = (Inl e, fs') \<Longrightarrow> fs' = fs"
  by (auto simp: run_with_def Let_def split: option.splits sum.splits)

subsection \<open>The loader\<close>

lemma concat_readlines_from: "concat (readlines_from cur s) = cur @ s"
  by (induction s arbitrary: cur) simp_all

lemma concat_readlines: "concat (readlines s) = s"
  by (simp add: readlines_def concat_readlines_from)

lemma universal_newlines_plain: "CR \<notin> set s \<Longrightarrow> universal_newlines s = s"
  by (induction s rule: universal_newlines.induct) auto

lemma readlines_from_line:
  "LF \<notin> set l \<Longrightarrow> readlines_from cur (l @ LF # rest) = (cur @ l @ [LF]) # readlines_from [] rest"
  by (induction l arbitrary: cur) auto

lemma readlines_from_last:
  "LF \<notin> set l \<Longrightarrow> readlines_from cur l = (if cur @ l = [] then [] else [cur @ l])"
  by (induction l arbitrary: cur) auto

lemma terminated_split: "terminated line \<Longrightarrow> \<exists>x. line = x @ [LF] \<and> LF \<notin> set x"
  unfolding terminated_def by (metis append_butlast_last_id)

lemma terminated_snoc: "LF \<notin> set x \<Longrightarrow> terminated (x @ [LF])"
  by (simp add: terminated_def)

lemma wf_lines_Cons:
  "wf_lines (line # lines) \<longleftrightarrow>
     (if lines = [] then terminated line \<or> unterminated line else terminated line \<and> wf_lines lines)"
  by (cases lines) simp_all

lemma wf_readlines_from: "LF \<notin> set cur \<Longrightarrow> wf_lines (readlines_from cur s)"
proof (induction s arbitrary: cur)
  case Nil
  then show ?case by (simp add: unterminated_def)
next
  case (Cons c cs)
  show ?case
  proof (cases "c = LF")
    case True
    have "wf_lines (readlines_from [] cs)"
      by (rule Cons.IH) simp
    moreover have "terminated (cur @ [c])"
      using True Cons.prems by (simp add: terminated_snoc)
    ultimately show ?thesis
      using True by (simp add: wf_lines_Cons)
  next
    case False
    with Cons.prems have "LF \<notin> set (cur @ [c])" by simp
    then have "wf_lines (readlines_from (cur @ [c]) cs)"
      by (rule Cons.IH)
    with False show ?thesis by simp
  qed
qed

lemma wf_readlines: "wf_lines (readlines s)"
  by (simp add: readlines_def wf_readlines_from)

lemma wf_lines_snoc:
  "wf_lines (ls @ [l]) \<longleftrightarrow> (\<forall>x \<in> set ls. terminated x) \<and> (terminated l \<or> unterminated l)"
  by (induction ls) (auto simp: wf_lines_Cons)

lemma readlines_concat:
  "\<forall>x \<in> set ls. terminated x \<Longrightarrow> readlines_from [] (concat ls @ rest) = ls @ readlines_from [] rest"
proof (induction ls)
  case Nil
  then show ?case by simp
next
  case (Cons x ls)
  then obtain y where y: "x = y @ [LF]" "LF \<notin> set y"
    using terminated_split [of x] by auto
  have "readlines_from [] (y @ LF # (concat ls @ rest)) = ([] @ y @ [LF]) # readlines_from [] (concat ls @ rest)"
    using y(2) by (rule readlines_from_line)
  with Cons y show ?case by simp
qed

lemma terminated_insertion: "terminated insertion"
  by code_simp

lemma terminated_inject: "\<forall>x \<in> set ls. terminated x \<Longrightarrow> \<forall>x \<in> set (inject ls). terminated x"
  by (induction ls) (simp_all add: inject_Cons terminated_insertion)


lemma rewrite_text_absent:
  "\<forall>rule \<in> set literal_rules. \<not> sublist (fst rule) s \<Longrightarrow> rewrite_text s = s"
  by (simp add: literal_rules_def rewrite_text_def sub_all_absent)

subsection \<open>Counting characters, keeping the anchor\<close>

lemma set_sub_all: "set (sub_all p r s) \<subseteq> set s \<union> set r"
proof (induction p r s rule: sub_all.induct)
  case (1 p r)
  then show ?case by (auto simp: sub_all.simps)
next
  case (2 p r c cs)
  have "set (drop (length p) (c # cs)) \<subseteq> set (c # cs)"
    by (rule set_drop_subset)
  with 2 show ?case
    by (auto simp: sub_all.simps(2) [of p r c cs])
qed

lemma count_sub_all:
  "q \<notin> set p \<Longrightarrow> q \<notin> set r \<Longrightarrow> count_list (sub_all p r s) q = count_list s q"
proof (induction p r s rule: sub_all.induct)
  case (1 p r)
  then show ?case by (simp add: sub_all.simps)
next
  case (2 p r c cs)
  show ?case
  proof (cases "p = []")
    case True
    with 2 show ?thesis by (simp add: sub_all.simps(2))
  next
    case False
    show ?thesis
    proof (cases "prefix p (c # cs)")
      case True
      then have "c # cs = p @ drop (length p) (c # cs)"
        by (metis append_eq_conv_conj prefixE)
      then have "count_list (c # cs) q = count_list p q + count_list (drop (length p) (c # cs)) q"
        by (metis count_list_append)
      with 2 False True show ?thesis
        by (simp add: sub_all.simps(2) [of p r c cs])
    next
      case nomatch: False
      with 2 False show ?thesis
        by (simp add: sub_all.simps(2) [of p r c cs])
    qed
  qed
qed

lemma universal_newlines_no_CR: "CR \<notin> set (universal_newlines s)"
  by (induction s rule: universal_newlines.induct) auto

lemma count_universal_newlines:
  "q \<noteq> CR \<Longrightarrow> q \<noteq> LF \<Longrightarrow> count_list (universal_newlines s) q = count_list s q"
  by (induction s rule: universal_newlines.induct) auto

lemma count_concat_inject:
  "count_list (concat (inject lines)) q
     = count_list (concat lines) q + matches lines * count_list insertion q"
  by (induction lines) (simp_all add: inject_Cons matches_Cons)

lemma set_concat_inject: "set (concat (inject lines)) \<subseteq> set (concat lines) \<union> set insertion"
  by (induction lines) (auto simp: inject_Cons)

lemma matches_pos: "0 < matches lines \<longleftrightarrow> (\<exists>line \<in> set lines. sublist anchor line)"
  by (auto simp: matches_def filter_empty_conv)

lemma sublist_concat: "x \<in> set xs \<Longrightarrow> sublist x (concat xs)"
proof -
  assume "x \<in> set xs"
  then obtain as bs where "xs = as @ x # bs"
    by (meson split_list)
  then have "concat xs = concat as @ x @ concat bs"
    by simp
  then show ?thesis
    by (metis sublist_appendI)
qed

lemma sublist_separator:
  "q \<notin> set a \<Longrightarrow> sublist a (u @ q # v) \<Longrightarrow> sublist a u \<or> sublist a v"
proof -
  assume q: "q \<notin> set a" and "sublist a (u @ q # v)"
  then consider "sublist a u" | "sublist a (q # v)"
    | xs1 xs2 where "a = xs1 @ xs2" "suffix xs1 u" "prefix xs2 (q # v)"
    by (auto simp: sublist_append)
  then show ?thesis
  proof cases
    case 1
    then show ?thesis by simp
  next
    case 2
    with q show ?thesis
      by (cases a) (auto simp: sublist_Cons_right prefix_Cons)
  next
    case 3
    with q have "xs2 = []"
      by (cases xs2) (auto simp: prefix_Cons)
    with 3 show ?thesis by (simp add: suffix_imp_sublist)
  qed
qed

lemma readlines_from_anchor:
  "LF \<notin> set a \<Longrightarrow> sublist a (cur @ s) \<Longrightarrow> a \<noteq> [] \<Longrightarrow> \<exists>line \<in> set (readlines_from cur s). sublist a line"
proof (induction s arbitrary: cur)
  case Nil
  then show ?case by (cases "cur = []") auto
next
  case (Cons c cs)
  show ?case
  proof (cases "c = LF")
    case True
    with Cons.prems have "sublist a cur \<or> sublist a cs"
      using sublist_separator [of LF a cur cs] by simp
    then show ?thesis
    proof
      assume "sublist a cur"
      then have "sublist a (cur @ [c])"
        by (metis sublist_append)
      with True show ?thesis by simp
    next
      assume "sublist a cs"
      then have "\<exists>line \<in> set (readlines_from [] cs). sublist a line"
        using Cons.IH [of "[]"] Cons.prems by simp
      with True show ?thesis by simp
    qed
  next
    case False
    have "sublist a ((cur @ [c]) @ cs)"
      using Cons.prems(2) by simp
    then have "\<exists>line \<in> set (readlines_from (cur @ [c]) cs). sublist a line"
      using Cons.IH [of "cur @ [c]"] Cons.prems by blast
    with False show ?thesis by simp
  qed
qed

lemma anchor_plain: "LF \<notin> set anchor \<and> anchor \<noteq> []"
  by code_simp

lemma anchor_line_iff: "0 < matches (readlines s) \<longleftrightarrow> sublist anchor s"
proof
  assume "0 < matches (readlines s)"
  then obtain line where "line \<in> set (readlines s)" "sublist anchor line"
    by (auto simp: matches_pos)
  then have "sublist anchor (concat (readlines s))"
    using sublist_concat [of line "readlines s"] by (metis sublist_order.order_trans)
  then show "sublist anchor s"
    by (simp add: concat_readlines)
next
  assume "sublist anchor s"
  then show "0 < matches (readlines s)"
    using readlines_from_anchor [of anchor "[]" s] anchor_plain
    by (simp add: matches_pos readlines_def)
qed


lemma anchor_quoted: "anchor = DQ # anchor_path @ [DQ]"
  by (simp add: anchor_def anchor_path_def)

lemma sub_all_keeps_anchor:
  assumes "p \<noteq> []" "DQ \<notin> set p" "\<not> sublist p anchor_path" "sublist anchor s"
  shows "sublist anchor (sub_all p r s)"
proof -
  from assms(4) obtain u v where "s = u @ anchor @ v"
    by (auto simp: sublist_def)
  then have s: "s = u @ DQ # (anchor_path @ DQ # v)"
    by (simp add: anchor_quoted)
  have "sub_all p r s = sub_all p r u @ DQ # sub_all p r (anchor_path @ DQ # v)"
    unfolding s using assms(1,2) by (rule sub_all_separator)
  also have "sub_all p r (anchor_path @ DQ # v) = sub_all p r anchor_path @ DQ # sub_all p r v"
    using assms(1,2) by (rule sub_all_separator)
  also have "sub_all p r anchor_path = anchor_path"
    using assms(3) by (rule sub_all_absent)
  finally have "sub_all p r s = sub_all p r u @ anchor @ sub_all p r v"
    by (simp add: anchor_quoted)
  then show ?thesis
    by (metis sublist_appendI)
qed

lemma literal_rules_anchor:
  "\<forall>rule \<in> set literal_rules.
     fst rule \<noteq> [] \<and> DQ \<notin> set (fst rule) \<and> DQ \<notin> set (snd rule)
     \<and> CR \<notin> set (snd rule) \<and> \<not> sublist (fst rule) anchor_path"
  by code_simp

lemma foldl_rules_keep_anchor:
  "\<forall>rule \<in> set rules. fst rule \<noteq> [] \<and> DQ \<notin> set (fst rule) \<and> \<not> sublist (fst rule) anchor_path \<Longrightarrow>
   sublist anchor s \<Longrightarrow>
   sublist anchor (foldl (\<lambda>text (p, r). sub_all p r text) s rules)"
proof (induction rules arbitrary: s)
  case Nil
  then show ?case by simp
next
  case (Cons rule rules)
  obtain p r where rule: "rule = (p, r)" by (cases rule)
  with Cons.prems have "sublist anchor (sub_all p r s)"
    by (simp add: sub_all_keeps_anchor)
  with Cons rule show ?case by simp
qed

lemma foldl_rules_count:
  "\<forall>rule \<in> set rules. q \<notin> set (fst rule) \<and> q \<notin> set (snd rule) \<Longrightarrow>
   count_list (foldl (\<lambda>text (p, r). sub_all p r text) s rules) q = count_list s q"
proof (induction rules arbitrary: s)
  case Nil
  then show ?case by simp
next
  case (Cons rule rules)
  obtain p r where rule: "rule = (p, r)" by (cases rule)
  with Cons show ?case by (simp add: count_sub_all)
qed

lemma foldl_rules_set:
  "\<forall>rule \<in> set rules. q \<notin> set (snd rule) \<Longrightarrow> q \<notin> set s \<Longrightarrow>
   q \<notin> set (foldl (\<lambda>text (p, r). sub_all p r text) s rules)"
proof (induction rules arbitrary: s)
  case Nil
  then show ?case by simp
next
  case (Cons rule rules)
  obtain p r where rule: "rule = (p, r)" by (cases rule)
  have "q \<notin> set (sub_all p r s)"
    using set_sub_all [of p r s] Cons.prems rule by auto
  with Cons rule show ?case by simp
qed

lemma rewrite_text_keeps_anchor: "sublist anchor s \<Longrightarrow> sublist anchor (rewrite_text s)"
  unfolding rewrite_text_foldl using literal_rules_anchor
  by (intro foldl_rules_keep_anchor) blast+

lemma rewrite_text_quotes: "count_list (rewrite_text s) DQ = count_list s DQ"
  unfolding rewrite_text_foldl using literal_rules_anchor
  by (intro foldl_rules_count) blast

lemma rewrite_text_no_CR: "CR \<notin> set s \<Longrightarrow> CR \<notin> set (rewrite_text s)"
  unfolding rewrite_text_foldl using literal_rules_anchor
  by (intro foldl_rules_set) blast+

lemma insertion_quotes: "count_list insertion DQ = 2 \<and> CR \<notin> set insertion"
  by code_simp

lemma written_no_CR: "CR \<notin> set (written stored)"
proof -
  have "CR \<notin> set (concat (readlines (universal_newlines stored)))"
    by (simp add: concat_readlines universal_newlines_no_CR)
  then have "CR \<notin> set (concat (inject (readlines (universal_newlines stored))))"
    using set_concat_inject [of "readlines (universal_newlines stored)"] insertion_quotes by blast
  then show ?thesis
    unfolding written_def by (rule rewrite_text_no_CR)
qed

lemma written_quotes:
  "count_list (written stored) DQ
     = count_list stored DQ + 2 * matches (readlines (universal_newlines stored))"
  by (simp add: written_def rewrite_text_quotes count_concat_inject concat_readlines
      count_universal_newlines insertion_quotes)

lemma written_keeps_anchor:
  assumes "0 < matches (readlines (universal_newlines stored))"
  shows "0 < matches (readlines (universal_newlines (written stored)))"
proof -
  let ?lines = "readlines (universal_newlines stored)"
  from assms obtain line where line: "line \<in> set ?lines" "sublist anchor line"
    by (auto simp: matches_pos)
  then have "line \<in> set (inject ?lines)"
    by (auto simp: inject_concat)
  then have "sublist line (concat (inject ?lines))"
    by (rule sublist_concat)
  with line(2) have "sublist anchor (concat (inject ?lines))"
    by (metis sublist_order.order_trans)
  then have "sublist anchor (written stored)"
    unfolding written_def by (rule rewrite_text_keeps_anchor)
  then have "0 < matches (readlines (written stored))"
    by (simp add: anchor_line_iff)
  then show ?thesis
    by (simp add: universal_newlines_plain written_no_CR)
qed

lemma fix_status_written:
  "fs target = Some stored \<Longrightarrow> fix_status fs = (Inr (), fs(target \<mapsto> written stored))"
  by (simp add: fix_status_found written_def)

subsection \<open>Occurrences after a scan\<close>

lemma clashI: "suffix y p \<Longrightarrow> y \<noteq> [] \<Longrightarrow> prefix y t \<or> prefix t y \<Longrightarrow> clash p t"
  by (auto simp: clash_def in_set_suffixes)

lemma straddlesI:
  assumes "p = xs1 @ xs2" "xs1 \<noteq> []" "suffix xs1 t"
  shows "xs2 \<in> set (straddles p t)"
proof -
  have "1 \<le> length xs1 \<and> length xs1 < Suc (length p)"
    using assms(1,2) by (cases xs1) simp_all
  then have "length xs1 \<in> {1..<Suc (length p)}"
    by (simp only: atLeastLessThan_iff)
  then have "length xs1 \<in> set [1..<Suc (length p)]"
    by (simp only: set_upt)
  moreover have "suffix (take (length xs1) p) t"
    using assms(1,3) by simp
  ultimately have "length xs1 \<in> set (filter (\<lambda>n. suffix (take n p) t) [1..<Suc (length p)])"
    by (simp only: set_filter mem_Collect_eq)
  then have "drop (length xs1) p \<in> set (straddles p t)"
    unfolding straddles_def set_map by (rule imageI)
  moreover have "drop (length xs1) p = xs2"
    using assms(1) by simp
  ultimately show ?thesis
    by simp
qed

lemma prefix_after_scan:
  "\<not> clash p t \<Longrightarrow> q \<noteq> [] \<Longrightarrow> prefix p (x @ sub_all q t s) \<Longrightarrow> prefix p (x @ s)"
proof (induction q t s arbitrary: x rule: sub_all.induct)
  case (1 q t)
  then show ?case by (simp add: sub_all_empty)
next
  case (2 q t c cs)
  show ?case
  proof (cases "prefix q (c # cs)")
    case True
    let ?rest = "sub_all q t (drop (length q) (c # cs))"
    from True "2.prems" have "prefix p (x @ t @ ?rest)"
      by (simp add: sub_all.simps(2))
    then have "prefix p x \<or> (\<exists>us. p = x @ us \<and> prefix us (t @ ?rest))"
      by (simp only: prefix_append)
    then show ?thesis
    proof
      assume "prefix p x"
      then show ?thesis by (simp add: prefix_prefix)
    next
      assume "\<exists>us. p = x @ us \<and> prefix us (t @ ?rest)"
      then obtain us where us: "p = x @ us" "prefix us (t @ ?rest)"
        by blast
      show ?thesis
      proof (cases "us = []")
        case True
        with us(1) show ?thesis by simp
      next
        case False
        from us(2) have "prefix us t \<or> (\<exists>vs. us = t @ vs \<and> prefix vs ?rest)"
          by (simp only: prefix_append)
        then have "prefix us t \<or> prefix t us"
          by (auto intro: prefixI)
        moreover have "suffix us p"
          using us(1) by (simp add: suffix_def)
        ultimately have "clash p t"
          using False clashI by blast
        with "2.prems" show ?thesis by simp
      qed
    qed
  next
    case False
    with "2.prems" have "prefix p ((x @ [c]) @ sub_all q t cs)"
      by (simp add: sub_all_step)
    then have "prefix p ((x @ [c]) @ cs)"
      using "2.IH"(3) "2.prems" False by blast
    then show ?thesis by simp
  qed
qed

lemma sublist_split_cases:
  assumes "sublist p (t @ rest)"
  obtains "sublist p t" | "sublist p rest"
    | xs1 xs2 where "p = xs1 @ xs2" "xs1 \<noteq> []" "suffix xs1 t" "prefix xs2 rest"
proof -
  from assms consider "sublist p t" | "sublist p rest"
    | xs1 xs2 where "p = xs1 @ xs2" "suffix xs1 t" "prefix xs2 rest"
    by (auto simp: sublist_append)
  then show ?thesis
  proof cases
    case 1
    then show ?thesis by (rule that(1))
  next
    case 2
    then show ?thesis by (rule that(2))
  next
    case 3
    show ?thesis
    proof (cases "xs1 = []")
      case True
      with 3 have "sublist p rest" by (simp add: prefix_imp_sublist)
      then show ?thesis by (rule that(2))
    next
      case False
      with 3 show ?thesis by (intro that(3)) auto
    qed
  qed
qed

lemma sublist_after_scan:
  "apart p t \<Longrightarrow> q \<noteq> [] \<Longrightarrow> sublist p (sub_all q t s) \<Longrightarrow> sublist p s"
proof (induction q t s rule: sub_all.induct)
  case (1 q t)
  then show ?case by (simp add: sub_all_empty)
next
  case (2 q t c cs)
  from "2.prems"(1) have nc: "\<not> clash p t" and ns: "straddles p t = []" and nt: "\<not> sublist p t"
    by (simp_all add: apart_def)
  show ?case
  proof (cases "prefix q (c # cs)")
    case True
    let ?tail = "drop (length q) (c # cs)"
    from True "2.prems" have "sublist p (t @ sub_all q t ?tail)"
      by (simp add: sub_all.simps(2))
    then show ?thesis
    proof (cases rule: sublist_split_cases)
      case 1
      with nt show ?thesis by simp
    next
      case 2
      then have "sublist p ?tail"
        using "2.IH"(2) "2.prems" True by blast
      then show ?thesis
        by (metis sublist_drop sublist_order.order_trans)
    next
      case (3 xs1 xs2)
      then have "xs2 \<in> set (straddles p t)"
        by (intro straddlesI)
      with ns show ?thesis by simp
    qed
  next
    case False
    with "2.prems" have "sublist p (c # sub_all q t cs)"
      by (simp add: sub_all_step)
    then consider "prefix p ([c] @ sub_all q t cs)" | "sublist p (sub_all q t cs)"
      by (auto simp: sublist_Cons_right)
    then show ?thesis
    proof cases
      case 1
      then have "prefix p ([c] @ cs)"
        using nc "2.prems"(2) prefix_after_scan [of p t q "[c]" cs] by blast
      then show ?thesis by (simp add: prefix_imp_sublist)
    next
      case 2
      then have "sublist p cs"
        using "2.IH"(3) "2.prems" False by blast
      then show ?thesis by (simp add: sublist_Cons_right)
    qed
  qed
qed

lemma own_occurrences_gone:
  assumes "\<not> clash p r" "\<not> sublist p r" "p \<noteq> []"
    and "\<forall>z \<in> set (straddles p r). \<not> clash z r \<and> \<not> sublist (p @ z) s"
  shows "\<not> sublist p (sub_all p r s)"
  using assms
proof (induction p r s rule: sub_all.induct)
  case (1 p r)
  then show ?case by (simp add: sub_all_empty)
next
  case (2 p r c cs)
  show ?case
  proof (cases "prefix p (c # cs)")
    case True
    let ?tail = "drop (length p) (c # cs)"
    from True have whole: "c # cs = p @ ?tail"
      by (metis append_eq_conv_conj prefixE)
    have tail: "\<forall>z \<in> set (straddles p r). \<not> clash z r \<and> \<not> sublist (p @ z) ?tail"
      using "2.prems"(4) by (metis sublist_drop sublist_order.order_trans)
    have ih: "\<not> sublist p (sub_all p r ?tail)"
      using "2.IH"(2) "2.prems"(1,2,3) True tail by blast
    have "sub_all p r (c # cs) = r @ sub_all p r ?tail"
      using True "2.prems"(3) by (simp add: sub_all.simps(2))
    moreover have "\<not> sublist p (r @ sub_all p r ?tail)"
    proof
      assume "sublist p (r @ sub_all p r ?tail)"
      then show False
      proof (cases rule: sublist_split_cases)
        case 1
        with "2.prems"(2) show False by simp
      next
        case 2
        with ih show False by simp
      next
        case (3 xs1 xs2)
        then have z: "xs2 \<in> set (straddles p r)"
          by (intro straddlesI)
        with "2.prems"(4) have "\<not> clash xs2 r"
          by blast
        moreover have "prefix xs2 ([] @ sub_all p r ?tail)"
          using 3(4) by simp
        ultimately have "prefix xs2 ([] @ ?tail)"
          using "2.prems"(3) prefix_after_scan [of xs2 r p "[]" ?tail] by blast
        then have "prefix (p @ xs2) (p @ ?tail)"
          by simp
        then have "sublist (p @ xs2) (c # cs)"
          using whole by (metis prefix_imp_sublist)
        with z "2.prems"(4) show False by blast
      qed
    qed
    ultimately show ?thesis by simp
  next
    case False
    have tail: "\<forall>z \<in> set (straddles p r). \<not> clash z r \<and> \<not> sublist (p @ z) cs"
      using "2.prems"(4) by (auto simp: sublist_Cons_right)
    have ih: "\<not> sublist p (sub_all p r cs)"
      using "2.IH"(3) "2.prems"(1,2,3) False tail by blast
    have "\<not> prefix p ([c] @ sub_all p r cs)"
    proof
      assume "prefix p ([c] @ sub_all p r cs)"
      then have "prefix p ([c] @ cs)"
        using "2.prems"(1,3) prefix_after_scan [of p r p "[c]" cs] by blast
      with False show False by simp
    qed
    with ih False show ?thesis
      by (simp add: sub_all_step sublist_Cons_right)
  qed
qed


lemma later_rules_keep_clean:
  "\<not> sublist p s \<Longrightarrow> \<forall>rule \<in> set rules. fst rule \<noteq> [] \<and> apart p (snd rule) \<Longrightarrow>
   \<not> sublist p (scan_rules s rules)"
proof (induction rules arbitrary: s)
  case Nil
  then show ?case by simp
next
  case (Cons rule rules)
  obtain q t where rule: "rule = (q, t)" by (cases rule)
  with Cons.prems have "\<not> sublist p (sub_all q t s)"
    using sublist_after_scan [of p t q s] by auto
  with Cons rule show ?case by simp
qed

lemma pattern_gone:
  assumes "rules = pre @ (p, r) # post"
    and "p \<noteq> []" "\<not> clash p r" "\<not> sublist p r"
    and "\<forall>z \<in> set (straddles p r). \<not> clash z r \<and> \<not> sublist (p @ z) (scan_rules s pre)"
    and "\<forall>rule \<in> set post. fst rule \<noteq> [] \<and> apart p (snd rule)"
  shows "\<not> sublist p (scan_rules s rules)"
proof -
  have "\<not> sublist p (sub_all p r (scan_rules s pre))"
    using assms(3,4,2,5) by (rule own_occurrences_gone)
  then have "\<not> sublist p (scan_rules (sub_all p r (scan_rules s pre)) post)"
    using assms(6) by (rule later_rules_keep_clean)
  then show ?thesis
    by (simp add: assms(1))
qed

lemma first_rule_static:
  "literal_rules = [] @ (''len(fields) <= 8'', ''len(fields) <= storage.FieldLevel'') # tl literal_rules
   \<and> \<not> clash ''len(fields) <= 8'' ''len(fields) <= storage.FieldLevel''
   \<and> \<not> sublist ''len(fields) <= 8'' ''len(fields) <= storage.FieldLevel''
   \<and> straddles ''len(fields) <= 8'' ''len(fields) <= storage.FieldLevel'' = [''en(fields) <= 8'']
   \<and> \<not> clash ''en(fields) <= 8'' ''len(fields) <= storage.FieldLevel''
   \<and> (\<forall>rule \<in> set (tl literal_rules). fst rule \<noteq> [] \<and> apart ''len(fields) <= 8'' (snd rule))"
  by code_simp

lemma later_rules_static:
  "\<forall>i \<in> set [1..<6].
     fst (literal_rules ! i) \<noteq> []
     \<and> \<not> clash (fst (literal_rules ! i)) (snd (literal_rules ! i))
     \<and> \<not> sublist (fst (literal_rules ! i)) (snd (literal_rules ! i))
     \<and> straddles (fst (literal_rules ! i)) (snd (literal_rules ! i)) = []
     \<and> (\<forall>rule \<in> set (drop (Suc i) literal_rules).
           fst rule \<noteq> [] \<and> apart (fst (literal_rules ! i)) (snd rule))"
  by code_simp

lemma first_pattern_gone:
  assumes "\<not> sublist ''len(fields) <= 8en(fields) <= 8'' s"
  shows "\<not> sublist ''len(fields) <= 8'' (rewrite_text s)"
proof -
  have "\<forall>z \<in> set (straddles ''len(fields) <= 8'' ''len(fields) <= storage.FieldLevel'').
          \<not> clash z ''len(fields) <= storage.FieldLevel''
          \<and> \<not> sublist (''len(fields) <= 8'' @ z) (scan_rules s [])"
    using assms first_rule_static by simp
  then have "\<not> sublist ''len(fields) <= 8'' (scan_rules s literal_rules)"
    using first_rule_static
    by (intro pattern_gone [where pre = "[]" and r = "''len(fields) <= storage.FieldLevel''"
          and post = "tl literal_rules"]) simp_all
  then show ?thesis
    unfolding rewrite_text_foldl .
qed

lemma later_pattern_gone:
  assumes "i \<in> set [1..<6]"
  shows "\<not> sublist (fst (literal_rules ! i)) (rewrite_text s)"
proof -
  let ?p = "fst (literal_rules ! i)" and ?r = "snd (literal_rules ! i)"
  have i: "i < length literal_rules"
    using assms by (simp add: literal_rules_def)
  have static: "?p \<noteq> [] \<and> \<not> clash ?p ?r \<and> \<not> sublist ?p ?r \<and> straddles ?p ?r = []
     \<and> (\<forall>rule \<in> set (drop (Suc i) literal_rules). fst rule \<noteq> [] \<and> apart ?p (snd rule))"
    using later_rules_static assms by blast
  have split: "literal_rules = take i literal_rules @ (?p, ?r) # drop (Suc i) literal_rules"
    using i by (simp add: id_take_nth_drop)
  have "\<forall>z \<in> set (straddles ?p ?r). \<not> clash z ?r
      \<and> \<not> sublist (?p @ z) (scan_rules s (take i literal_rules))"
    using static by simp
  with split static have "\<not> sublist ?p (scan_rules s literal_rules)"
    by (intro pattern_gone [where pre = "take i literal_rules" and r = ?r
          and post = "drop (Suc i) literal_rules"]) blast+
  then show ?thesis
    unfolding rewrite_text_foldl .
qed

lemma all_patterns_gone:
  assumes "\<not> sublist ''len(fields) <= 8en(fields) <= 8'' s"
  shows "\<forall>rule \<in> set literal_rules. \<not> sublist (fst rule) (rewrite_text s)"
proof
  fix rule
  assume "rule \<in> set literal_rules"
  then obtain i where i: "i < length literal_rules" "rule = literal_rules ! i"
    by (metis in_set_conv_nth)
  show "\<not> sublist (fst rule) (rewrite_text s)"
  proof (cases "i = 0")
    case True
    with i have "fst rule = ''len(fields) <= 8''"
      by (simp add: literal_rules_def)
    with assms show ?thesis
      by (simp only: first_pattern_gone not_False_eq_True)
  next
    case False
    with i(1) have "i \<in> set [1..<6]"
      by (simp add: literal_rules_def)
    then show ?thesis
      unfolding i(2) by (rule later_pattern_gone)
  qed
qed

lemma replacements_free:
  "\<forall>rule \<in> set literal_rules. \<forall>other \<in> set literal_rules. \<not> sublist (fst rule) (snd other)"
  by code_simp

subsection \<open>Lines through the injector and the rewriter\<close>

lemma insertion_no_anchor: "\<not> sublist anchor insertion"
  by code_simp

lemma matches_append: "matches (xs @ ys) = matches xs + matches ys"
  by (simp add: matches_def)

lemma matches_inject: "matches (inject lines) = matches lines"
  by (induction lines) (simp_all add: inject_Cons matches_Cons insertion_no_anchor)

lemma matches_map:
  "(\<And>line. sublist anchor line \<Longrightarrow> sublist anchor (f line)) \<Longrightarrow> matches lines \<le> matches (map f lines)"
  by (induction lines) (auto simp: matches_Cons)

lemma readlines_insertion_joined:
  assumes "LF \<notin> set l"
  shows "readlines_from [] (l @ insertion) = [l @ insertion]"
proof -
  obtain x where x: "insertion = x @ [LF]" "LF \<notin> set x"
    using terminated_split [OF terminated_insertion] by blast
  have "readlines_from [] ((l @ x) @ LF # []) = ([] @ (l @ x) @ [LF]) # readlines_from [] []"
    using assms x(2) by (intro readlines_from_line) simp
  then show ?thesis
    using x(1) by simp
qed

lemma matches_reread_injected:
  assumes "wf_lines lines"
  shows "matches (readlines (concat (inject lines))) = matches lines"
proof (cases lines rule: rev_cases)
  case Nil
  then show ?thesis by (simp add: readlines_def)
next
  case (snoc ls l)
  with assms have ls: "\<forall>x \<in> set ls. terminated x" and l: "terminated l \<or> unterminated l"
    by (simp_all add: wf_lines_snoc)
  have til: "\<forall>x \<in> set (inject ls). terminated x"
    using ls by (rule terminated_inject)
  show ?thesis
  proof (cases "terminated l")
    case True
    with ls snoc have "\<forall>x \<in> set lines. terminated x"
      by simp
    then have "\<forall>x \<in> set (inject lines). terminated x"
      by (rule terminated_inject)
    then have "readlines_from [] (concat (inject lines) @ []) = inject lines @ readlines_from [] []"
      by (rule readlines_concat)
    then show ?thesis
      by (simp add: readlines_def matches_inject)
  next
    case False
    with l have open_line: "l \<noteq> []" "LF \<notin> set l"
      by (simp_all add: unterminated_def)
    show ?thesis
    proof (cases "sublist anchor l")
      case True
      then have inj: "inject lines = inject ls @ [l, insertion]"
        using snoc by (simp add: inject_append inject_Cons)
      have "readlines_from [] (concat (inject ls) @ (l @ insertion))
          = inject ls @ readlines_from [] (l @ insertion)"
        using til by (rule readlines_concat)
      then have "readlines (concat (inject lines)) = inject ls @ [l @ insertion]"
        using open_line(2) by (simp add: inj readlines_def readlines_insertion_joined)
      moreover have "sublist anchor (l @ insertion)"
        using True by (metis sublist_append)
      ultimately show ?thesis
        using True snoc by (simp add: matches_append matches_Cons matches_inject)
    next
      case nomatch: False
      then have inj: "inject lines = inject ls @ [l]"
        using snoc by (simp add: inject_append inject_Cons)
      have "readlines_from [] (concat (inject ls) @ l) = inject ls @ readlines_from [] l"
        using til by (rule readlines_concat)
      then have "readlines (concat (inject lines)) = inject ls @ [l]"
        using open_line by (simp add: inj readlines_def readlines_from_last)
      then show ?thesis
        using snoc by (simp add: matches_append matches_inject)
    qed
  qed
qed

lemma sub_all_nonempty: "p \<noteq> [] \<Longrightarrow> r \<noteq> [] \<Longrightarrow> s \<noteq> [] \<Longrightarrow> sub_all p r s \<noteq> []"
  by (cases s) (simp_all add: sub_all.simps(2))

lemma sub_all_no_LF: "LF \<notin> set r \<Longrightarrow> LF \<notin> set s \<Longrightarrow> LF \<notin> set (sub_all p r s)"
  using set_sub_all [of p r s] by blast

lemma readlines_sub_all:
  assumes "p \<noteq> []" "r \<noteq> []" "LF \<notin> set p" "LF \<notin> set r"
  shows "wf_lines ls \<Longrightarrow> readlines (sub_all p r (concat ls)) = map (sub_all p r) ls"
proof (induction ls rule: wf_lines.induct)
  case 1
  with assms(1) show ?case by (simp add: readlines_def sub_all_empty)
next
  case (2 line)
  show ?case
  proof (cases "terminated line")
    case True
    then obtain x where x: "line = x @ [LF]" "LF \<notin> set x"
      using terminated_split by blast
    have "sub_all p r (x @ LF # []) = sub_all p r x @ LF # sub_all p r []"
      using assms(1,3) by (rule sub_all_separator)
    then have sub: "sub_all p r line = sub_all p r x @ LF # []"
      using x(1) assms(1) by (simp add: sub_all_empty)
    have "readlines_from [] (sub_all p r x @ LF # []) = ([] @ sub_all p r x @ [LF]) # readlines_from [] []"
      using assms(4) x(2) by (intro readlines_from_line sub_all_no_LF)
    then show ?thesis
      by (simp add: readlines_def sub)
  next
    case False
    with 2 have "line \<noteq> []" "LF \<notin> set line"
      by (simp_all add: unterminated_def)
    then have "sub_all p r line \<noteq> []" "LF \<notin> set (sub_all p r line)"
      using assms by (simp_all add: sub_all_nonempty sub_all_no_LF)
    then show ?thesis
      by (simp add: readlines_def readlines_from_last)
  qed
next
  case (3 line next_line lines)
  then obtain x where x: "line = x @ [LF]" "LF \<notin> set x"
    using terminated_split by auto
  let ?rest = "concat (next_line # lines)"
  have "sub_all p r (x @ LF # ?rest) = sub_all p r x @ LF # sub_all p r ?rest"
    using assms(1,3) by (rule sub_all_separator)
  moreover have "sub_all p r (x @ LF # []) = sub_all p r x @ LF # sub_all p r []"
    using assms(1,3) by (rule sub_all_separator)
  then have "sub_all p r line = sub_all p r x @ [LF]"
    using x(1) assms(1) by (simp add: sub_all_empty)
  moreover have "readlines_from [] (sub_all p r x @ LF # sub_all p r ?rest)
      = ([] @ sub_all p r x @ [LF]) # readlines_from [] (sub_all p r ?rest)"
    using assms(4) x(2) by (intro readlines_from_line sub_all_no_LF)
  moreover have "readlines (sub_all p r ?rest) = map (sub_all p r) (next_line # lines)"
    using 3 by simp
  ultimately show ?case
    using x(1) by (simp add: readlines_def)
qed

lemma readlines_concat_wf:
  assumes "wf_lines ls"
  shows "readlines (concat ls) = ls"
proof (cases ls rule: rev_cases)
  case Nil
  then show ?thesis by (simp add: readlines_def)
next
  case (snoc ls' l)
  with assms have ls': "\<forall>x \<in> set ls'. terminated x" and l: "terminated l \<or> unterminated l"
    by (simp_all add: wf_lines_snoc)
  show ?thesis
  proof (cases "terminated l")
    case True
    with ls' snoc have "\<forall>x \<in> set ls. terminated x"
      by simp
    then have "readlines_from [] (concat ls @ []) = ls @ readlines_from [] []"
      by (rule readlines_concat)
    then show ?thesis
      by (simp add: readlines_def)
  next
    case False
    with l have "l \<noteq> []" "LF \<notin> set l"
      by (simp_all add: unterminated_def)
    moreover have "readlines_from [] (concat ls' @ l) = ls' @ readlines_from [] l"
      using ls' by (rule readlines_concat)
    ultimately show ?thesis
      using snoc by (simp add: readlines_def readlines_from_last)
  qed
qed

lemma readlines_scan_rules:
  "\<forall>rule \<in> set rules. fst rule \<noteq> [] \<and> snd rule \<noteq> [] \<and> LF \<notin> set (fst rule) \<and> LF \<notin> set (snd rule) \<Longrightarrow>
   wf_lines ls \<Longrightarrow>
   readlines (scan_rules (concat ls) rules) = map (\<lambda>line. scan_rules line rules) ls"
proof (induction rules arbitrary: ls)
  case Nil
  then show ?case by (simp add: readlines_concat_wf)
next
  case (Cons rule rules)
  obtain p r where rule: "rule = (p, r)" by (cases rule)
  let ?ls = "map (sub_all p r) ls"
  have step: "readlines (sub_all p r (concat ls)) = ?ls"
    using Cons.prems rule by (intro readlines_sub_all) simp_all
  then have "wf_lines ?ls"
    using wf_readlines [of "sub_all p r (concat ls)"] by simp
  moreover have "\<forall>rule \<in> set rules. fst rule \<noteq> [] \<and> snd rule \<noteq> [] \<and> LF \<notin> set (fst rule) \<and> LF \<notin> set (snd rule)"
    using Cons.prems(1) by simp
  ultimately have "readlines (scan_rules (concat ?ls) rules) = map (\<lambda>line. scan_rules line rules) ?ls"
    by (intro Cons.IH)
  moreover have "concat ?ls = sub_all p r (concat ls)"
    using step concat_readlines [of "sub_all p r (concat ls)"] by simp
  ultimately show ?case
    using rule by (simp add: comp_def)
qed

lemma literal_rules_lines:
  "\<forall>rule \<in> set literal_rules.
     fst rule \<noteq> [] \<and> snd rule \<noteq> [] \<and> LF \<notin> set (fst rule) \<and> LF \<notin> set (snd rule)"
  by code_simp

lemma readlines_rewrite_text:
  "wf_lines ls \<Longrightarrow> readlines (rewrite_text (concat ls)) = map rewrite_text ls"
  unfolding rewrite_text_foldl using literal_rules_lines by (rule readlines_scan_rules)

lemma written_keeps_anchor_lines:
  "matches (readlines (universal_newlines stored))
     \<le> matches (readlines (universal_newlines (written stored)))"
proof -
  let ?lines = "readlines (universal_newlines stored)"
  let ?joined = "concat (inject ?lines)"
  have "wf_lines ?lines"
    by (rule wf_readlines)
  then have "matches ?lines = matches (readlines ?joined)"
    by (simp add: matches_reread_injected)
  also have "\<dots> \<le> matches (map rewrite_text (readlines ?joined))"
    by (rule matches_map) (rule rewrite_text_keeps_anchor)
  also have "map rewrite_text (readlines ?joined) = readlines (rewrite_text (concat (readlines ?joined)))"
    using wf_readlines [of ?joined] by (simp add: readlines_rewrite_text)
  also have "\<dots> = readlines (written stored)"
    by (simp add: concat_readlines written_def)
  also have "\<dots> = readlines (universal_newlines (written stored))"
    by (simp add: universal_newlines_plain written_no_CR)
  finally show ?thesis .
qed


section \<open>The injector emits one insertion line per match\<close>

text \<open>
  C1. For every sequence of lines the injector copies each line and puts the insertion line
  directly behind each line that holds the anchor (the anchor as the script has it, with its
  double quotes): the output is the input with \<open>[line, insertion]\<close> in place of each such
  \<open>line\<close>. With \<open>k\<close> such lines the output is \<open>k\<close> lines longer and holds \<open>k\<close> more copies
  of the insertion line than the input; the \<open>i\<close>-th input line stands at position \<open>i\<close> plus
  the number of matches before it, and the insertion line right behind it when it matches.
  With no match the output is the input.
\<close>

theorem inject_one_insertion_per_match:
  "inject lines = concat (map (\<lambda>line. if sublist anchor line then [line, insertion] else [line]) lines)
   \<and> length (inject lines) = length lines + matches lines
   \<and> count_list (inject lines) insertion = count_list lines insertion + matches lines
   \<and> (\<forall>i<length lines.
        inject lines ! (i + matches (take i lines)) = lines ! i
        \<and> (sublist anchor (lines ! i) \<longrightarrow>
             inject lines ! (i + matches (take i lines) + 1) = insertion))
   \<and> (matches lines = 0 \<longrightarrow> inject lines = lines)"
  using inject_concat length_inject count_inject inject_at inject_no_match by blast

theorem inject_one_insertion_per_match_witness:
  "inject [''x'', anchor @ [LF], ''y''] ! 1 = anchor @ [LF]
   \<and> inject [''x'', anchor @ [LF], ''y''] ! 2 = insertion
   \<and> inject [''x'', ''y''] = [''x'', ''y'']"
proof -
  let ?ls = "[''x'', anchor @ [LF], ''y'']"
  have m: "matches (take 1 ?ls) = 0"
    by code_simp
  have n: "matches [''x'', ''y''] = 0"
    by code_simp
  have s: "sublist anchor (?ls ! 1)"
    by simp
  have "\<forall>i<length ?ls.
        inject ?ls ! (i + matches (take i ?ls)) = ?ls ! i
        \<and> (sublist anchor (?ls ! i) \<longrightarrow>
             inject ?ls ! (i + matches (take i ?ls) + 1) = insertion)"
    using inject_one_insertion_per_match [of ?ls] by blast
  moreover have "1 < length ?ls"
    by simp
  ultimately have "inject ?ls ! (1 + matches (take 1 ?ls)) = ?ls ! 1
        \<and> (sublist anchor (?ls ! 1) \<longrightarrow>
             inject ?ls ! (1 + matches (take 1 ?ls) + 1) = insertion)"
    by blast
  then have "inject ?ls ! (1 + 0) = ?ls ! 1 \<and> inject ?ls ! (1 + 0 + 1) = insertion"
    using s unfolding m by blast
  then have a: "inject ?ls ! 1 = anchor @ [LF] \<and> inject ?ls ! 2 = insertion"
    by (simp add: numeral_2_eq_2)
  have b: "inject [''x'', ''y''] = [''x'', ''y'']"
    using inject_one_insertion_per_match [of "[''x'', ''y'']"] n by blast
  show ?thesis using a b by blast
qed


section \<open>A missing target\<close>

text \<open>
  C2. When the target path is not in the store, the run ends with \<open>NotFoundError\<close> and the
  store it leaves is the store it found: nothing is written.
\<close>

theorem missing_target_not_found:
  "fs target = None \<Longrightarrow> fix_status fs = (Inl NotFoundError, fs)"
  by (simp add: fix_status_def)

theorem missing_target_not_found_witness:
  "fix_status Map.empty = (Inl NotFoundError, Map.empty)"
  using missing_target_not_found [of Map.empty] by simp

section \<open>The scenario of the two length-and-index rules\<close>

text \<open>
  C3. The six substitutions turn \<open>if len(fields) <= 8 { return fields[8] }\<close> into
  \<open>if len(fields) <= storage.FieldLevel { return fields[storage.FieldLevel] }\<close>: the first
  rule rewrites the comparison, the second the index, the first two rules alone give the
  same text, and none of the other four rules changes it.
\<close>

theorem rewrite_scenario:
  "rewrite ''if len(fields) <= 8 { return fields[8] }''
     = Inr ''if len(fields) <= storage.FieldLevel { return fields[storage.FieldLevel] }''
   \<and> rewrite_with (take 1 rewrite_rules) ''if len(fields) <= 8 { return fields[8] }''
     = Inr ''if len(fields) <= storage.FieldLevel { return fields[8] }''
   \<and> rewrite_with (take 1 (drop 1 rewrite_rules)) ''if len(fields) <= storage.FieldLevel { return fields[8] }''
     = Inr ''if len(fields) <= storage.FieldLevel { return fields[storage.FieldLevel] }''
   \<and> rewrite_with (take 2 rewrite_rules) ''if len(fields) <= 8 { return fields[8] }''
     = Inr ''if len(fields) <= storage.FieldLevel { return fields[storage.FieldLevel] }''
   \<and> map (\<lambda>rule. rewrite_with [rule]
               ''if len(fields) <= storage.FieldLevel { return fields[storage.FieldLevel] }'')
         (drop 2 rewrite_rules)
     = replicate 4
         (Inr ''if len(fields) <= storage.FieldLevel { return fields[storage.FieldLevel] }'')"
  unfolding rewrite_total rewrite_text_def rewrite_rules_def
  by (simp add: re_sub_def bind_result_def re_template_def re_special_def ascii_alnum_def
      numeral_eq_Suc sub_all.simps)

section \<open>The rewriter is the fold of the six substitutions\<close>

text \<open>
  C4. For every text the rewriter is the six rules applied from the first to the last, each
  on the text the one before left: the six patterns compile to six literals, and the result
  is the left fold of the six scans over the text; the text the script writes is that fold
  over the joined lines. Each scan works on the whole text and replaces every occurrence it
  meets from left to right, not only the first: when no occurrence of \<open>p\<close> begins inside
  \<open>u\<close>, the scan of \<open>u @ p @ v\<close> copies \<open>u\<close>, puts \<open>r\<close> for \<open>p\<close> and goes on with \<open>v\<close>; a text
  without an occurrence is left as it is.
\<close>

theorem rewrite_is_fold:
  "rewrite content = rewrite_with rewrite_rules content
   \<and> map (\<lambda>(pattern, repl). (re_compile pattern, re_template repl)) rewrite_rules
       = map (\<lambda>(p, r). (Inr p, Inr r)) literal_rules
   \<and> rewrite content = Inr (foldl (\<lambda>text (p, r). sub_all p r text) content literal_rules)
   \<and> (fs target = Some stored \<longrightarrow>
        fix_status fs =
          (Inr (), fs(target \<mapsto> foldl (\<lambda>text (p, r). sub_all p r text)
                      (concat (inject (readlines (universal_newlines stored)))) literal_rules)))
   \<and> (\<not> sublist p (u @ butlast p) \<longrightarrow> sub_all p r (u @ p @ v) = u @ r @ sub_all p r v)
   \<and> (\<not> sublist p u \<longrightarrow> sub_all p r u = u)"
  using rewrite_with_rules [of content] compiled_rules rewrite_total [of content]
    rewrite_text_foldl fix_status_found [of fs stored] sub_all_skip [of p u r v]
    sub_all_absent [of p u r]
  by simp

theorem rewrite_is_fold_witness:
  "sub_all ''ab'' ''X'' (''c'' @ ''ab'' @ ''dab'') = ''c'' @ ''X'' @ sub_all ''ab'' ''X'' ''dab''
   \<and> sub_all ''ab'' ''X'' ''c'' = ''c''
   \<and> fix_status [target \<mapsto> ''fields[8] fields[8]'']
       = (Inr (), [target \<mapsto> ''fields[storage.FieldLevel] fields[storage.FieldLevel]''])"
proof -
  have a: "\<not> sublist ''ab'' (''c'' @ butlast ''ab'')"
    by code_simp
  have b: "\<not> sublist ''ab'' ''c''"
    by code_simp
  let ?fs = "[target \<mapsto> ''fields[8] fields[8]'']"
  have c: "?fs target = Some ''fields[8] fields[8]''"
    by simp
  have d: "foldl (\<lambda>text (p, r). sub_all p r text)
             (concat (inject (readlines (universal_newlines ''fields[8] fields[8]'')))) literal_rules
           = ''fields[storage.FieldLevel] fields[storage.FieldLevel]''"
    by code_simp
  show ?thesis
    using rewrite_is_fold [where p = "''ab''" and u = "''c''" and r = "''X''" and v = "''dab''"
        and fs = ?fs and stored = "''fields[8] fields[8]''"] a b c
    unfolding d by simp
qed

section \<open>The order of the rules can be seen\<close>

text \<open>
  C5. The order of the rules matters: on the text \<open>len(fields) <= 8en(fields) <= 5\<close> the
  script's order gives another result than the list with the first and the third rule
  exchanged. The first rule's replacement ends in \<open>l\<close>, which completes an occurrence of the
  third rule's pattern; the third rule finds it only when it runs after the first.
\<close>

theorem rule_order_matters:
  "rewrite_with rewrite_rules ''len(fields) <= 8en(fields) <= 5''
     = Inr ''len(fields) <= storage.FieldLevelen(fields) <= storage.FieldPane''
   \<and> rewrite_with (swap_rules 0 2 rewrite_rules) ''len(fields) <= 8en(fields) <= 5''
     = Inr ''len(fields) <= storage.FieldLevelen(fields) <= 5''
   \<and> (\<exists>i j text. i < j \<and> j < length rewrite_rules
         \<and> rewrite_with (swap_rules i j rewrite_rules) text \<noteq> rewrite_with rewrite_rules text)"
proof -
  have a: "rewrite_with rewrite_rules ''len(fields) <= 8en(fields) <= 5''
     = Inr ''len(fields) <= storage.FieldLevelen(fields) <= storage.FieldPane''"
    by code_simp
  have b: "rewrite_with (swap_rules 0 2 rewrite_rules) ''len(fields) <= 8en(fields) <= 5''
     = Inr ''len(fields) <= storage.FieldLevelen(fields) <= 5''"
    by code_simp
  have "(0::nat) < 2 \<and> 2 < length rewrite_rules
     \<and> rewrite_with (swap_rules 0 2 rewrite_rules) ''len(fields) <= 8en(fields) <= 5''
       \<noteq> rewrite_with rewrite_rules ''len(fields) <= 8en(fields) <= 5''"
    unfolding a b by (simp add: rewrite_rules_def)
  then show ?thesis
    using a b by blast
qed

section \<open>A pattern that does not compile\<close>

text \<open>
  C8. In a run with any list of rules, an error leaves the store as it was: the substitutions
  all come before the write. When the target exists, a rule's pattern does not compile and
  the rules before it are inside the modelled fragment, the run ends with \<open>PatternError\<close> and
  the store is unchanged. The script is the run with its six rules.
\<close>

theorem pattern_error_before_write:
  "(run_with rules fs = (Inl e, fs') \<longrightarrow> fs' = fs)
   \<and> (fs target = Some stored \<and> (\<forall>rule \<in> set pre. in_fragment rule)
        \<and> re_compile pattern = Inl PatternError \<longrightarrow>
      run_with (pre @ (pattern, repl) # post) fs = (Inl PatternError, fs))
   \<and> fix_status fs = run_with rewrite_rules fs"
proof -
  have "run_with (pre @ (pattern, repl) # post) fs = (Inl PatternError, fs)"
    if "fs target = Some stored" "\<forall>rule \<in> set pre. in_fragment rule"
      "re_compile pattern = Inl PatternError"
    using that rewrite_with_pattern_error [of pre pattern repl post]
    by (simp add: run_with_def)
  moreover have "fix_status fs = run_with rewrite_rules fs"
    by (simp add: run_with_rules)
  moreover have "run_with rules fs = (Inl e, fs') \<longrightarrow> fs' = fs"
    using run_with_error [of rules fs e fs'] by blast
  ultimately show ?thesis
    by blast
qed

theorem pattern_error_before_write_witness:
  "run_with [(''fields'' @ BSL # ''[8'' @ BSL # '']'', ''x''), (''fields'' @ [BSL], ''y''), (''z'', ''w'')]
     [target \<mapsto> ''fields[8]'']
     = (Inl PatternError, [target \<mapsto> ''fields[8]''])"
proof -
  have a: "[target \<mapsto> ''fields[8]''] target = Some ''fields[8]''"
    by simp
  have b: "\<forall>rule \<in> set [(''fields'' @ BSL # ''[8'' @ BSL # '']'', ''x'')]. in_fragment rule"
    by code_simp
  have c: "re_compile (''fields'' @ [BSL]) = Inl PatternError"
    by code_simp
  have "run_with ([(''fields'' @ BSL # ''[8'' @ BSL # '']'', ''x'')] @ (''fields'' @ [BSL], ''y'') # [(''z'', ''w'')])
          [target \<mapsto> ''fields[8]'']
        = (Inl PatternError, [target \<mapsto> ''fields[8]''])"
    using pattern_error_before_write [where fs = "[target \<mapsto> ''fields[8]'']"
        and stored = "''fields[8]''" and pre = "[(''fields'' @ BSL # ''[8'' @ BSL # '']'', ''x'')]"
        and pattern = "''fields'' @ [BSL]" and repl = "''y''" and post = "[(''z'', ''w'')]"] a b c
    by blast
  then show ?thesis
    by simp
qed

section \<open>An anchor on an unterminated last line\<close>

text \<open>
  C9. The injector appends the insertion line without looking at the end of the matched
  line. When the last line that \<open>readlines\<close> yields holds the anchor, the joined output is
  the joined output of the lines before it, the line and the insertion text directly behind
  it. If that line does not end in \<open>LF\<close>, the joined output read as lines has the match and
  the insertion text on one line; if it ends in \<open>LF\<close>, the insertion text is a line of its
  own.
\<close>

theorem insertion_joins_unterminated_line:
  assumes "readlines content = ls @ [l]" and "sublist anchor l"
  shows "concat (inject (readlines content)) = concat (inject ls) @ l @ insertion
    \<and> (last l \<noteq> LF \<longrightarrow>
         readlines (concat (inject (readlines content))) = inject ls @ [l @ insertion])
    \<and> (last l = LF \<longrightarrow>
         readlines (concat (inject (readlines content))) = inject ls @ [l, insertion])"
proof -
  have "wf_lines (ls @ [l])"
    using wf_readlines [of content] assms(1) by simp
  then have ls: "\<forall>x \<in> set ls. terminated x" and l: "terminated l \<or> unterminated l"
    by (simp_all add: wf_lines_snoc)
  have inj: "inject (readlines content) = inject ls @ [l, insertion]"
    using assms by (simp add: inject_append inject_Cons)
  then have joined: "concat (inject (readlines content)) = concat (inject ls) @ l @ insertion"
    by simp
  have til: "\<forall>x \<in> set (inject ls). terminated x"
    using ls by (rule terminated_inject)
  have open_case: "readlines (concat (inject (readlines content))) = inject ls @ [l @ insertion]"
    if "last l \<noteq> LF"
  proof -
    from that l have nl: "LF \<notin> set l"
      by (auto simp: terminated_def unterminated_def)
    obtain x where x: "insertion = x @ [LF]" "LF \<notin> set x"
      using terminated_split [OF terminated_insertion] by blast
    have "readlines_from [] ((l @ x) @ LF # []) = ([] @ (l @ x) @ [LF]) # readlines_from [] []"
      using nl x(2) by (intro readlines_from_line) simp
    then have "readlines_from [] (l @ insertion) = [l @ insertion]"
      using x(1) by simp
    moreover have "readlines_from [] (concat (inject ls) @ (l @ insertion))
        = inject ls @ readlines_from [] (l @ insertion)"
      using til by (rule readlines_concat)
    ultimately show ?thesis
      by (subst joined) (simp add: readlines_def)
  qed
  have closed_case: "readlines (concat (inject (readlines content))) = inject ls @ [l, insertion]"
    if "last l = LF"
  proof -
    from that l have "terminated l"
      using last_in_set [of l] by (auto simp: unterminated_def)
    with til have "\<forall>x \<in> set (inject ls @ [l, insertion]). terminated x"
      by (simp add: terminated_insertion)
    then have "readlines_from [] (concat (inject ls @ [l, insertion]) @ [])
        = (inject ls @ [l, insertion]) @ readlines_from [] []"
      by (rule readlines_concat)
    then show ?thesis
      by (subst inj) (simp add: readlines_def)
  qed
  from joined open_case closed_case show ?thesis
    by blast
qed

theorem insertion_joins_unterminated_line_witness:
  "readlines (concat (inject (readlines (''import ('' @ [LF] @ anchor))))
     = [''import ('' @ [LF], anchor @ insertion]
   \<and> readlines (concat (inject (readlines (''import ('' @ [LF] @ anchor @ [LF]))))
     = [''import ('' @ [LF], anchor @ [LF], insertion]"
proof -
  have r1: "readlines (''import ('' @ [LF] @ anchor) = [''import ('' @ [LF]] @ [anchor]"
    by code_simp
  have r2: "readlines (''import ('' @ [LF] @ anchor @ [LF]) = [''import ('' @ [LF]] @ [anchor @ [LF]]"
    by code_simp
  have i: "inject [''import ('' @ [LF]] = [''import ('' @ [LF]]"
    by code_simp
  have l1: "last anchor \<noteq> LF"
    by code_simp
  have l2: "last (anchor @ [LF]) = LF"
    by simp
  have s1: "sublist anchor anchor"
    by simp
  have s2: "sublist anchor (anchor @ [LF])"
    by simp
  have a: "readlines (concat (inject (readlines (''import ('' @ [LF] @ anchor))))
     = inject [''import ('' @ [LF]] @ [anchor @ insertion]"
    using insertion_joins_unterminated_line [OF r1 s1] l1 by blast
  have b: "readlines (concat (inject (readlines (''import ('' @ [LF] @ anchor @ [LF]))))
     = inject [''import ('' @ [LF]] @ [anchor @ [LF], insertion]"
    using insertion_joins_unterminated_line [OF r2 s2] l2 by blast
  from a b show ?thesis
    unfolding i by simp
qed

section \<open>Content without a match\<close>

text \<open>
  C10, as stated, fails: a file with \<open>CR LF\<close> line ends, no anchor and no match of a pattern
  is written back with \<open>LF\<close> line ends, because the text-mode read turns \<open>CR LF\<close> into \<open>LF\<close>.
\<close>

theorem crlf_content_changed:
  "matches (readlines (''a'' @ [CR, LF] @ ''b'')) = 0
   \<and> matches (readlines (universal_newlines (''a'' @ [CR, LF] @ ''b''))) = 0
   \<and> \<not> sublist ''len(fields) <= 8'' (''a'' @ [CR, LF] @ ''b'')
   \<and> \<not> sublist ''fields[8]'' (''a'' @ [CR, LF] @ ''b'')
   \<and> \<not> sublist ''len(fields) <= 5'' (''a'' @ [CR, LF] @ ''b'')
   \<and> \<not> sublist ''fields[3]'' (''a'' @ [CR, LF] @ ''b'')
   \<and> \<not> sublist ''fields[4]'' (''a'' @ [CR, LF] @ ''b'')
   \<and> \<not> sublist ''fields[5]'' (''a'' @ [CR, LF] @ ''b'')
   \<and> fix_status [target \<mapsto> ''a'' @ [CR, LF] @ ''b''] = (Inr (), [target \<mapsto> ''a'' @ [LF] @ ''b''])
   \<and> ''a'' @ [LF] @ ''b'' \<noteq> ''a'' @ [CR, LF] @ ''b''"
proof -
  have lines: "matches (readlines (''a'' @ [CR, LF] @ ''b'')) = 0
    \<and> matches (readlines (universal_newlines (''a'' @ [CR, LF] @ ''b''))) = 0"
    by code_simp
  have pats: "\<not> sublist ''len(fields) <= 8'' (''a'' @ [CR, LF] @ ''b'')
   \<and> \<not> sublist ''fields[8]'' (''a'' @ [CR, LF] @ ''b'')
   \<and> \<not> sublist ''len(fields) <= 5'' (''a'' @ [CR, LF] @ ''b'')
   \<and> \<not> sublist ''fields[3]'' (''a'' @ [CR, LF] @ ''b'')
   \<and> \<not> sublist ''fields[4]'' (''a'' @ [CR, LF] @ ''b'')
   \<and> \<not> sublist ''fields[5]'' (''a'' @ [CR, LF] @ ''b'')"
    by code_simp
  have out: "rewrite_text (concat (inject (readlines (universal_newlines (''a'' @ [CR, LF] @ ''b'')))))
     = ''a'' @ [LF] @ ''b''"
    by code_simp
  have "[target \<mapsto> ''a'' @ [CR, LF] @ ''b''] target = Some (''a'' @ [CR, LF] @ ''b'')"
    by simp
  then have "fix_status [target \<mapsto> ''a'' @ [CR, LF] @ ''b'']
      = (Inr (), [target \<mapsto> ''a'' @ [CR, LF] @ ''b'', target \<mapsto> ''a'' @ [LF] @ ''b''])"
    unfolding out [symmetric] by (rule fix_status_found)
  then have run: "fix_status [target \<mapsto> ''a'' @ [CR, LF] @ ''b''] = (Inr (), [target \<mapsto> ''a'' @ [LF] @ ''b''])"
    by simp
  have "''a'' @ [LF] @ ''b'' \<noteq> ''a'' @ [CR, LF] @ ''b''"
    by simp
  with lines pats run show ?thesis
    by blast
qed

text \<open>
  C10, amended. For every stored content without a carriage return in which no line holds
  the anchor and no pattern of a rule occurs, the run succeeds and leaves the store as it
  was: the content written back is the original content, a missing final newline included.
\<close>

theorem unmatched_content_unchanged:
  assumes "fs target = Some stored"
    and "CR \<notin> set stored"
    and "matches (readlines stored) = 0"
    and "\<forall>rule \<in> set literal_rules. \<not> sublist (fst rule) stored"
  shows "fix_status fs = (Inr (), fs)"
proof -
  have "concat (inject (readlines (universal_newlines stored))) = stored"
    using assms(2,3) by (simp add: universal_newlines_plain inject_no_match concat_readlines)
  then have "fix_status fs = (Inr (), fs(target \<mapsto> stored))"
    using assms(1,4) by (simp add: fix_status_found rewrite_text_absent)
  moreover have "fs(target \<mapsto> stored) = fs"
    using assms(1) by (rule map_upd_triv)
  ultimately show ?thesis by simp
qed

theorem unmatched_content_unchanged_witness:
  "fix_status [target \<mapsto> ''package main'' @ [LF] @ ''var fields []string'']
     = (Inr (), [target \<mapsto> ''package main'' @ [LF] @ ''var fields []string''])"
proof -
  let ?stored = "''package main'' @ [LF] @ ''var fields []string''"
  have a: "[target \<mapsto> ?stored] target = Some ?stored"
    by simp
  have b: "CR \<notin> set ?stored"
    by simp
  have c: "matches (readlines ?stored) = 0"
    by code_simp
  have d: "\<forall>rule \<in> set literal_rules. \<not> sublist (fst rule) ?stored"
    by code_simp
  show ?thesis
    using unmatched_content_unchanged [where fs = "[target \<mapsto> ?stored]" and stored = ?stored]
      a b c d by blast
qed

section \<open>The whole run is not idempotent on a file with an anchor line\<close>

text \<open>
  C7. When the target exists and one of its lines, as read, holds the anchor, the first run
  and a second run on its result both succeed; the first result has at least as many lines
  with the anchor as the input (the rewriter works line by line and keeps the anchor), so
  the second run inserts again behind each of them: its result has two more double quotes
  for each anchor line it read, and differs from the first result.
\<close>

theorem second_run_inserts_again:
  assumes "fs target = Some stored"
    and "0 < matches (readlines (universal_newlines stored))"
  shows "fix_status fs = (Inr (), fs(target \<mapsto> written stored))
    \<and> fix_status (fs(target \<mapsto> written stored)) = (Inr (), fs(target \<mapsto> written (written stored)))
    \<and> matches (readlines (universal_newlines stored))
        \<le> matches (readlines (universal_newlines (written stored)))
    \<and> 0 < matches (readlines (universal_newlines (written stored)))
    \<and> count_list (written (written stored)) DQ
        = count_list (written stored) DQ + 2 * matches (readlines (universal_newlines (written stored)))
    \<and> written (written stored) \<noteq> written stored"
proof -
  have kept: "matches (readlines (universal_newlines stored))
        \<le> matches (readlines (universal_newlines (written stored)))"
    by (rule written_keeps_anchor_lines)
  have first: "fix_status fs = (Inr (), fs(target \<mapsto> written stored))"
    using assms(1) by (rule fix_status_written)
  have "(fs(target \<mapsto> written stored)) target = Some (written stored)"
    by simp
  then have "fix_status (fs(target \<mapsto> written stored))
      = (Inr (), fs(target \<mapsto> written stored, target \<mapsto> written (written stored)))"
    by (rule fix_status_written)
  then have second: "fix_status (fs(target \<mapsto> written stored))
      = (Inr (), fs(target \<mapsto> written (written stored)))"
    by simp
  have again: "0 < matches (readlines (universal_newlines (written stored)))"
    using assms(2) by (rule written_keeps_anchor)
  have quotes: "count_list (written (written stored)) DQ
        = count_list (written stored) DQ + 2 * matches (readlines (universal_newlines (written stored)))"
    by (rule written_quotes)
  with again have "count_list (written (written stored)) DQ \<noteq> count_list (written stored) DQ"
    by simp
  then have "written (written stored) \<noteq> written stored"
    by metis
  with first second kept again quotes show ?thesis
    by blast
qed

theorem second_run_inserts_again_witness:
  "fix_status [target \<mapsto> anchor] = (Inr (), [target \<mapsto> anchor @ insertion])
   \<and> fix_status [target \<mapsto> anchor @ insertion] = (Inr (), [target \<mapsto> anchor @ insertion @ insertion])
   \<and> anchor @ insertion @ insertion \<noteq> anchor @ insertion"
proof -
  have a: "[target \<mapsto> anchor] target = Some anchor"
    by simp
  have b: "0 < matches (readlines (universal_newlines anchor))"
    by code_simp
  have w1: "written anchor = anchor @ insertion"
    by code_simp
  have w2: "written (anchor @ insertion) = anchor @ insertion @ insertion"
    by code_simp
  have "fix_status [target \<mapsto> anchor] = (Inr (), [target \<mapsto> written anchor])
    \<and> fix_status [target \<mapsto> written anchor] = (Inr (), [target \<mapsto> written (written anchor)])
    \<and> written (written anchor) \<noteq> written anchor"
    using second_run_inserts_again [where fs = "[target \<mapsto> anchor]" and stored = anchor] a b
    by simp
  then show ?thesis
    unfolding w1 w2 by simp
qed

section \<open>Rewriting twice\<close>

text \<open>
  C6, as stated, fails: on the text \<open>len(fields) <= 8en(fields) <= 8\<close> the six substitutions
  applied twice give another text than applied once. The first pass replaces the first
  occurrence of the first pattern; the replacement ends in \<open>l\<close>, and with the text behind it
  that \<open>l\<close> begins a new occurrence of the same pattern, which the second pass replaces.
\<close>

theorem rewrite_twice_differs:
  "rewrite ''len(fields) <= 8en(fields) <= 8''
     = Inr ''len(fields) <= storage.FieldLevelen(fields) <= 8''
   \<and> bind_result (rewrite ''len(fields) <= 8en(fields) <= 8'') rewrite
     = Inr ''len(fields) <= storage.FieldLevelen(fields) <= storage.FieldLevel''
   \<and> bind_result (rewrite ''len(fields) <= 8en(fields) <= 8'') rewrite
     \<noteq> rewrite ''len(fields) <= 8en(fields) <= 8''"
proof -
  have a: "rewrite ''len(fields) <= 8en(fields) <= 8''
     = Inr ''len(fields) <= storage.FieldLevelen(fields) <= 8''"
    by code_simp
  have b: "rewrite ''len(fields) <= storage.FieldLevelen(fields) <= 8''
     = Inr ''len(fields) <= storage.FieldLevelen(fields) <= storage.FieldLevel''"
    by code_simp
  show ?thesis
    unfolding a by (simp add: bind_result_def b)
qed

text \<open>
  C6, amended. For every text that does not hold \<open>len(fields) <= 8en(fields) <= 8\<close>, the six
  substitutions applied twice give the same text as applied once: after one pass no pattern
  of a rule occurs in the text. No replacement of a rule holds an occurrence of a pattern of
  a rule.
\<close>

theorem rewrite_idempotent_without_straddle:
  "(\<not> sublist ''len(fields) <= 8en(fields) <= 8'' content \<longrightarrow>
      bind_result (rewrite content) rewrite = rewrite content
      \<and> (\<forall>rule \<in> set literal_rules. \<not> sublist (fst rule) (rewrite_text content)))
   \<and> (\<forall>rule \<in> set literal_rules. \<forall>other \<in> set literal_rules. \<not> sublist (fst rule) (snd other))"
proof -
  have "bind_result (rewrite content) rewrite = rewrite content"
    if "\<forall>rule \<in> set literal_rules. \<not> sublist (fst rule) (rewrite_text content)"
    using that by (simp add: rewrite_total bind_result_def rewrite_text_absent)
  then show ?thesis
    using all_patterns_gone [of content] replacements_free by blast
qed

theorem rewrite_idempotent_without_straddle_witness:
  "bind_result (rewrite ''if len(fields) <= 8 { return fields[8] }'') rewrite
     = rewrite ''if len(fields) <= 8 { return fields[8] }''"
proof -
  have "\<not> sublist ''len(fields) <= 8en(fields) <= 8'' ''if len(fields) <= 8 { return fields[8] }''"
    by code_simp
  then show ?thesis
    using rewrite_idempotent_without_straddle [of "''if len(fields) <= 8 { return fields[8] }''"]
    by blast
qed

end
